theory Spec2Isabelle
  imports Complex_Main "HOL-Library.Log_Nat" "HOL-Library.Word"
begin

section \<open>JavaScript numbers: IEEE 754 binary64 arithmetic\<close>

text \<open>
  Every number of \<^verbatim>\<open>App.tsx\<close> is a JavaScript Number, a binary64 float. Each
  arithmetic operation returns the exact result rounded to the nearest float, ties going to
  the float with an even significand. A finite float is represented by the rational it
  denotes; \<open>fl\<close> is the rounding to 53 significant bits. The exponent range is not
  modelled: with channel values up to 255, native sizes below \<open>2\<^sup>3\<^sup>2\<close> and the
  resolutions of the control (50 to 300), every non-zero magnitude the program computes lies
  between \<open>2\<^sup>-\<^sup>4\<^sup>0\<close> and \<open>2\<^sup>5\<^sup>0\<close>, far from underflow and overflow. A non-finite
  value (NaN, Infinity) is \<open>None\<close> where one can arise (the division by
  \<^verbatim>\<open>videoWidth\<close>).
\<close>

definition rne :: "rat \<Rightarrow> int" where
  \<comment> \<open>round to the nearest integer, ties to even\<close>
  "rne q = (let f = \<lfloor>q\<rfloor>; d = q - of_int f in
            if d < 1 / 2 then f else if 1 / 2 < d then f + 1
            else if even f then f else f + 1)"

definition expo :: "rat \<Rightarrow> int" where
  \<comment> \<open>the binary exponent of a positive rational: \<open>2 powi expo x \<le> x < 2 powi (expo x + 1)\<close>\<close>
  "expo x = (case quotient_of x of (p, q) \<Rightarrow>
               let d = bitlen p - bitlen q in if 2 powi d \<le> x then d else d - 1)"

definition fl :: "rat \<Rightarrow> rat" where
  \<comment> \<open>round to nearest binary64, ties to even: 53 significant bits\<close>
  "fl x = (if x = 0 then 0 else
            let s = 2 powi (expo \<bar>x\<bar> - 52) in sgn x * of_int (rne (\<bar>x\<bar> / s)) * s)"

section \<open>Constants (App.tsx, lines 5 to 7)\<close>

definition newline :: char where
  "newline = CHR 0x0A"

definition ASCII_RAMP :: string where
  \<comment> \<open>line 5; \<open>CHR 0x22\<close> is the double quote and \<open>CHR 0x5C\<close> the backslash that the
      TypeScript literal writes with escapes\<close>
  \<open>ASCII_RAMP = ''`^'' @ [CHR 0x22] @ '',:;Il!i~+_-?][}{1)(|'' @ [CHR 0x5C] @
     ''/tfjrxnuvczXYUJCLQ0OZmwqpdbkhao*#MW&8%B@$''\<close>

definition DEFAULT_RESOLUTION :: nat where
  "DEFAULT_RESOLUTION = 150"

definition FONT_SIZE_ADJUST :: rat where
  \<comment> \<open>the literal \<^verbatim>\<open>0.5\<close>\<close>
  "FONT_SIZE_ADJUST = fl (1 / 2)"

section \<open>Luminance and ramp index (lines 80 and 81)\<close>

definition weightR :: rat where
  \<comment> \<open>the literal \<^verbatim>\<open>0.21\<close>\<close>
  "weightR = fl (21 / 100)"

definition weightG :: rat where
  \<comment> \<open>the literal \<^verbatim>\<open>0.72\<close>\<close>
  "weightG = fl (72 / 100)"

definition weightB :: rat where
  \<comment> \<open>the literal \<^verbatim>\<open>0.07\<close>\<close>
  "weightB = fl (7 / 100)"

definition gray :: "rat \<Rightarrow> rat \<Rightarrow> rat \<Rightarrow> rat" where
  \<comment> \<open>line 80: \<^verbatim>\<open>0.21 * r + 0.72 * g + 0.07 * b\<close>, the sum taken left to right\<close>
  "gray r g b = fl (fl (fl (weightR * r) + fl (weightG * g)) + fl (weightB * b))"

definition rampIndex :: "rat \<Rightarrow> int" where
  \<comment> \<open>line 81: \<^verbatim>\<open>Math.floor((gray / 255) * (ASCII_RAMP.length - 1))\<close>\<close>
  "rampIndex gr = \<lfloor>fl (fl (gr / 255) * (of_nat (length ASCII_RAMP) - 1))\<rfloor>"

definition quantize :: "nat \<Rightarrow> nat \<Rightarrow> nat \<Rightarrow> int" where
  \<comment> \<open>lines 80 and 81 on the three channel values of a pixel\<close>
  "quantize r g b = rampIndex (gray (of_nat r) (of_nat g) (of_nat b))"

section \<open>Output geometry (lines 60 to 62)\<close>

record video =
  videoWidth :: "32 word"
  videoHeight :: "32 word"
  drawn :: "nat \<Rightarrow> nat \<Rightarrow> nat \<Rightarrow> 8 word"

text \<open>
  \<open>videoWidth\<close> and \<open>videoHeight\<close> are the \<^verbatim>\<open>unsigned long\<close> attributes of the
  video element, both zero until the metadata is loaded. \<open>drawn v w h\<close> is the bitmap that
  \<^verbatim>\<open>drawImage(video, 0, 0, w, h)\<close> leaves on the freshly sized \<open>w \<times> h\<close> canvas
  (line 67), as a function from the byte offset in RGBA order: the scaling filter is the
  browser's, so the bitmap is a parameter.
\<close>

definition aspectRatio :: "video \<Rightarrow> rat option" where
  \<comment> \<open>line 60; a zero \<^verbatim>\<open>videoWidth\<close> gives NaN or Infinity\<close>
  "aspectRatio v =
     (if videoWidth v = 0 then None
      else Some (fl (of_nat (unat (videoHeight v)) / of_nat (unat (videoWidth v)))))"

definition canvasHeight :: "video \<Rightarrow> nat \<Rightarrow> int option" where
  \<comment> \<open>line 62; \<^verbatim>\<open>Math.floor\<close> keeps NaN and Infinity\<close>
  "canvasHeight v cw =
     (case aspectRatio v of
        None \<Rightarrow> None
      | Some a \<Rightarrow> Some \<lfloor>fl (fl (a * of_nat cw) * FONT_SIZE_ADJUST)\<rfloor>)"

definition exactHeight :: "nat \<Rightarrow> nat \<Rightarrow> nat \<Rightarrow> int" where
  \<comment> \<open>the formula of the specification in exact arithmetic:
      \<open>floor ((sourceHeight / sourceWidth) * width * 0.5)\<close>\<close>
  "exactHeight sourceHeight sourceWidth width =
     \<lfloor>(of_nat sourceHeight / of_nat sourceWidth) * of_nat width * (1 / 2 :: rat)\<rfloor>"

section \<open>Reading the pixels and assembling the text (lines 70 to 85)\<close>

datatype domException = IndexSizeError | TypeError

definition getImageData ::
  "(nat \<Rightarrow> 8 word) \<Rightarrow> nat \<Rightarrow> int option \<Rightarrow> domException + 8 word list" where
  \<comment> \<open>\<^verbatim>\<open>ctx.getImageData(0, 0, sw, sh).data\<close>: the arguments are \<^verbatim>\<open>[EnforceRange] long\<close>,
      so a non-finite or too large one raises TypeError; an empty rectangle raises
      IndexSizeError; otherwise the data has four bytes for each of the \<open>sw * \<bar>sh\<bar>\<close> pixels\<close>
  "getImageData bitmap sw sh =
     (case sh of
        None \<Rightarrow> Inl TypeError
      | Some h \<Rightarrow>
          if 2 ^ 31 \<le> int sw \<or> 2 ^ 31 \<le> \<bar>h\<bar> then Inl TypeError
          else if sw = 0 \<or> h = 0 then Inl IndexSizeError
          else Inr (map bitmap [0..<4 * sw * nat \<bar>h\<bar>]))"

definition readByte :: "8 word list \<Rightarrow> nat \<Rightarrow> nat option" where
  \<comment> \<open>\<^verbatim>\<open>imageData[i]\<close>: \<^verbatim>\<open>undefined\<close> past the end of the array\<close>
  "readByte imageData i = (if i < length imageData then Some (unat (imageData ! i)) else None)"

definition cellIndex :: "8 word list \<Rightarrow> nat \<Rightarrow> int option" where
  \<comment> \<open>lines 76 to 81 at a byte offset; arithmetic on \<^verbatim>\<open>undefined\<close> gives NaN, here \<open>None\<close>\<close>
  "cellIndex imageData offset =
     (case (readByte imageData offset, readByte imageData (offset + 1),
            readByte imageData (offset + 2)) of
        (Some r, Some g, Some b) \<Rightarrow> Some (quantize r g b)
      | _ \<Rightarrow> None)"

definition rampChar :: "int option \<Rightarrow> string" where
  \<comment> \<open>what line 82 appends: \<^verbatim>\<open>ASCII_RAMP[rampIndex]\<close> is \<^verbatim>\<open>undefined\<close> outside the string,
      and \<^verbatim>\<open>+=\<close> then appends the text \<^verbatim>\<open>undefined\<close>\<close>
  "rampChar i =
     (case i of
        None \<Rightarrow> ''undefined''
      | Some k \<Rightarrow>
          if 0 \<le> k \<and> k < int (length ASCII_RAMP) then [ASCII_RAMP ! nat k]
          else ''undefined'')"

definition appendRow :: "(nat \<Rightarrow> int option) \<Rightarrow> nat \<Rightarrow> nat \<Rightarrow> string \<Rightarrow> string" where
  \<comment> \<open>lines 74 to 84, one turn of the outer loop: the inner loop over \<open>x\<close>, then the
      newline; \<open>idx\<close> gives the ramp index computed at a byte offset\<close>
  "appendRow idx cw y asciiString =
     fold (\<lambda>x s. s @ rampChar (idx ((y * cw + x) * 4))) [0..<cw] asciiString @ [newline]"

definition assemble :: "(nat \<Rightarrow> int option) \<Rightarrow> nat \<Rightarrow> nat \<Rightarrow> string" where
  \<comment> \<open>lines 71 to 85: the outer loop over \<open>y\<close>, from the empty string\<close>
  "assemble idx cw ch = fold (appendRow idx cw) [0..<ch] []"

definition gridIndex :: "int list \<Rightarrow> nat \<Rightarrow> int option" where
  \<comment> \<open>a row-major sequence of ramp indices, read at the byte offset of a cell\<close>
  "gridIndex indices offset = Some (indices ! (offset div 4))"

definition rowOf :: "int list \<Rightarrow> nat \<Rightarrow> nat \<Rightarrow> string" where
  \<comment> \<open>the glyphs of row \<open>y\<close> of a row-major sequence of ramp indices, left to right\<close>
  "rowOf indices cw y = map (\<lambda>x. ASCII_RAMP ! nat (indices ! (y * cw + x))) [0..<cw]"

section \<open>The conversion cycle (lines 51 to 95)\<close>

record canvas =
  contextAcquired :: bool

record dom =
  videoRef :: "video option"
  canvasRef :: "canvas option"

record state =
  asciiArt :: string
  resolution :: nat
  console :: "string list"
  frameRequested :: bool

definition initialState :: state where
  \<comment> \<open>lines 36 and 38\<close>
  "initialState =
     \<lparr>asciiArt = [], resolution = DEFAULT_RESOLUTION, console = [], frameRequested = False\<rparr>"

text \<open>
  Lines 64 to 67 raise nothing: the two assignments convert the height to an
  \<^verbatim>\<open>unsigned long\<close> (NaN and Infinity become 0), and \<^verbatim>\<open>drawImage\<close> with a video
  source returns without drawing when an argument is not finite or no frame is there. The one
  call that can raise, \<^verbatim>\<open>getImageData\<close>, stands inside \<^verbatim>\<open>try\<close>.
\<close>

definition tryBlock :: "video \<Rightarrow> nat \<Rightarrow> int option \<Rightarrow> domException + string" where
  \<comment> \<open>the body of \<^verbatim>\<open>try\<close>, lines 70 to 85, up to the string handed to \<^verbatim>\<open>setAsciiArt\<close>\<close>
  "tryBlock v cw ch =
     (case getImageData (drawn v cw (case ch of None \<Rightarrow> 0 | Some h \<Rightarrow> nat h)) cw ch of
        Inl error \<Rightarrow> Inl error
      | Inr imageData \<Rightarrow>
          Inr (assemble (cellIndex imageData) cw (case ch of None \<Rightarrow> 0 | Some h \<Rightarrow> nat h)))"

definition convertToAscii :: "dom \<Rightarrow> state \<Rightarrow> domException + state" where
  \<comment> \<open>lines 51 to 90; \<open>Inl\<close> is an exception that leaves the function\<close>
  "convertToAscii d st =
     (case (videoRef d, canvasRef d) of
        (Some v, Some c) \<Rightarrow>
          if \<not> contextAcquired c then Inr st
          else
            (case tryBlock v (resolution st) (canvasHeight v (resolution st)) of
               Inl error \<Rightarrow> Inr (st\<lparr>console := console st @ [''Failed to get image data:'']\<rparr>)
             | Inr asciiString \<Rightarrow> Inr (st\<lparr>asciiArt := asciiString\<rparr>))
      | _ \<Rightarrow> Inr st)"

definition animate :: "dom \<Rightarrow> state \<Rightarrow> domException + state" where
  \<comment> \<open>lines 92 to 95: an exception of the conversion would skip the next request\<close>
  "animate d st =
     (case convertToAscii d st of
        Inl error \<Rightarrow> Inl error
      | Inr st' \<Rightarrow> Inr (st'\<lparr>frameRequested := True\<rparr>))"

section \<open>The resolution control (lines 192 to 200)\<close>

definition rangeValue :: "rat \<Rightarrow> nat" where
  \<comment> \<open>the value of \<^verbatim>\<open><input type="range" min="50" max="300">\<close> after the value
      sanitization of the HTML standard: an underflow gives the minimum, an overflow the
      maximum, and a step mismatch (default step 1, from the minimum) is rounded to the
      nearest step, a tie upwards; \<open>raw\<close> is the number that the user or a script gives
      the control\<close>
  "rangeValue raw =
     (if raw < 50 then 50 else if 300 < raw then 300 else nat \<lfloor>raw + 1 / 2\<rfloor>)"

definition onChange :: "rat \<Rightarrow> state \<Rightarrow> state" where
  \<comment> \<open>line 198: \<^verbatim>\<open>setResolution(Number(e.target.value))\<close>\<close>
  "onChange raw st = st\<lparr>resolution := rangeValue raw\<rparr>"

datatype event = Change rat | Convert dom | Animate dom

fun handle :: "state \<Rightarrow> event \<Rightarrow> state" where
  "handle st (Change raw) = onChange raw st"
| "handle st (Convert d) = (case convertToAscii d st of Inl error \<Rightarrow> st | Inr st' \<Rightarrow> st')"
| "handle st (Animate d) = (case animate d st of Inl error \<Rightarrow> st | Inr st' \<Rightarrow> st')"

definition run :: "event list \<Rightarrow> state" where
  "run events = foldl handle initialState events"

section \<open>Example sources\<close>

definition solid :: "8 word \<Rightarrow> nat \<Rightarrow> nat \<Rightarrow> nat \<Rightarrow> 8 word" where
  \<comment> \<open>a frame of one colour: every byte of every scaled bitmap has the same value\<close>
  "solid c w h i = c"

definition hd1080 :: video where
  "hd1080 = \<lparr>videoWidth = 1920, videoHeight = 1080, drawn = solid 128\<rparr>"

definition sif :: video where
  \<comment> \<open>the 352 by 240 source input format\<close>
  "sif = \<lparr>videoWidth = 352, videoHeight = 240, drawn = solid 128\<rparr>"

definition banner :: video where
  \<comment> \<open>a source thirty times as wide as it is high\<close>
  "banner = \<lparr>videoWidth = 1920, videoHeight = 64, drawn = solid 128\<rparr>"

definition strip :: video where
  \<comment> \<open>a white source that gives one row of cells at the default resolution\<close>
  "strip = \<lparr>videoWidth = 75, videoHeight = 1, drawn = solid 255\<rparr>"

definition unloaded :: video where
  \<comment> \<open>a video element before its metadata is there\<close>
  "unloaded = \<lparr>videoWidth = 0, videoHeight = 0, drawn = solid 0\<rparr>"

definition page :: "video \<Rightarrow> dom" where
  \<comment> \<open>both refs set, the 2d context acquired\<close>
  "page v = \<lparr>videoRef = Some v, canvasRef = Some \<lparr>contextAcquired = True\<rparr>\<rparr>"

section \<open>Properties of the rounding\<close>

lemma rne_cases:
  "rne q = \<lfloor>q\<rfloor> \<or> rne q = \<lfloor>q\<rfloor> + 1"
  by (simp add: rne_def Let_def)

lemma rne_err: "\<bar>of_int (rne q) - q\<bar> \<le> 1 / 2"
proof -
  have "of_int \<lfloor>q\<rfloor> \<le> q" "q < of_int \<lfloor>q\<rfloor> + 1" by linarith+
  then show ?thesis
    by (auto simp: rne_def Let_def abs_le_iff)
qed

lemma rne_of_int: "rne (of_int n) = n"
  by (simp add: rne_def)

lemma rne_mono:
  assumes "a \<le> b"
  shows "rne a \<le> rne b"
proof (cases "\<lfloor>a\<rfloor> = \<lfloor>b\<rfloor>")
  case True
  then show ?thesis
    using assms by (auto simp: rne_def Let_def)
next
  case False
  then have "\<lfloor>a\<rfloor> + 1 \<le> \<lfloor>b\<rfloor>"
    using floor_mono[OF assms] by simp
  moreover have "rne a \<le> \<lfloor>a\<rfloor> + 1" using rne_cases[of a] by auto
  moreover have "\<lfloor>b\<rfloor> \<le> rne b" using rne_cases[of b] by auto
  ultimately show ?thesis by simp
qed

lemma rne_ge: "of_int n \<le> q \<Longrightarrow> n \<le> rne q"
  using rne_mono[of "of_int n" q] by (simp add: rne_of_int)

lemma rne_le: "q \<le> of_int n \<Longrightarrow> rne q \<le> n"
  using rne_mono[of q "of_int n"] by (simp add: rne_of_int)

lemma expo_bounds:
  assumes "0 < x"
  shows "2 powi expo x \<le> x \<and> x < 2 powi (expo x + 1)"
proof -
  obtain p q where pq: "quotient_of x = (p, q)" by (cases "quotient_of x")
  have q: "0 < q" using pq by (rule quotient_of_denom_pos)
  have x: "x = of_int p / of_int q" using pq by (rule quotient_of_div)
  have p: "0 < p" using assms q x by (simp add: zero_less_divide_iff)
  define bp where "bp = bitlen p"
  define bq where "bq = bitlen q"
  have bp: "2 ^ nat (bp - 1) \<le> p" "p < 2 ^ nat bp"
    using bitlen_bounds[OF p] by (simp_all add: bp_def)
  have bq: "2 ^ nat (bq - 1) \<le> q" "q < 2 ^ nat bq"
    using bitlen_bounds[OF q] by (simp_all add: bq_def)
  have bp1: "1 \<le> bp" using p by (simp add: bp_def bitlen_alt_def)
  have bq1: "1 \<le> bq" using q by (simp add: bq_def bitlen_alt_def)
  have rp: "(2::rat) powi (bp - 1) \<le> of_int p" "(of_int p :: rat) < 2 powi bp"
  proof -
    have "(of_int (2 ^ nat (bp - 1)) :: rat) \<le> of_int p" using bp(1) by (simp only: of_int_le_iff)
    then show "(2::rat) powi (bp - 1) \<le> of_int p" using bp1 by (simp add: power_int_def)
    have "(of_int p :: rat) < of_int (2 ^ nat bp)" using bp(2) by (simp only: of_int_less_iff)
    then show "(of_int p :: rat) < 2 powi bp" using bp1 by (simp add: power_int_def)
  qed
  have rq: "(2::rat) powi (bq - 1) \<le> of_int q" "(of_int q :: rat) < 2 powi bq"
  proof -
    have "(of_int (2 ^ nat (bq - 1)) :: rat) \<le> of_int q" using bq(1) by (simp only: of_int_le_iff)
    then show "(2::rat) powi (bq - 1) \<le> of_int q" using bq1 by (simp add: power_int_def)
    have "(of_int q :: rat) < of_int (2 ^ nat bq)" using bq(2) by (simp only: of_int_less_iff)
    then show "(of_int q :: rat) < 2 powi bq" using bq1 by (simp add: power_int_def)
  qed
  have qpos: "(0::rat) < of_int q" using q by simp
  have up: "x < 2 powi (bp - bq + 1)"
  proof -
    have "of_int p < (2::rat) powi (bp - bq + 1) * 2 powi (bq - 1)"
      using rp(2) by (simp add: power_int_add[symmetric])
    also have "\<dots> \<le> 2 powi (bp - bq + 1) * of_int q"
      using rq(1) by (intro mult_left_mono) simp_all
    finally show ?thesis using qpos by (simp add: x pos_divide_less_eq)
  qed
  have lo: "2 powi (bp - bq - 1) < x"
  proof -
    have "(2::rat) powi (bp - bq - 1) * of_int q < 2 powi (bp - bq - 1) * 2 powi bq"
      using rq(2) by (intro mult_strict_left_mono) simp_all
    also have "\<dots> = 2 powi (bp - 1)" by (simp add: power_int_add[symmetric])
    also have "\<dots> \<le> of_int p" by (rule rp(1))
    finally show ?thesis using qpos by (simp add: x pos_less_divide_eq)
  qed
  show ?thesis
  proof (cases "2 powi (bp - bq) \<le> x")
    case True
    then have "expo x = bp - bq" by (simp add: expo_def pq bp_def bq_def Let_def)
    then show ?thesis using True up by simp
  next
    case False
    then have "expo x = bp - bq - 1" by (simp add: expo_def pq bp_def bq_def Let_def)
    then show ?thesis using False lo by simp
  qed
qed

lemma two_powi_add: "(2::rat) powi a * 2 powi b = 2 powi (a + b)"
  by (simp add: power_int_add)

lemma fl_zero: "fl 0 = 0"
  by (simp add: fl_def)

lemma fl_pos:
  "0 < x \<Longrightarrow> fl x = of_int (rne (x / 2 powi (expo x - 52))) * 2 powi (expo x - 52)"
  by (simp add: fl_def Let_def)

lemma sig_bounds:
  assumes "0 < x"
  shows "2 ^ 52 \<le> x / 2 powi (expo x - 52)" and "x / 2 powi (expo x - 52) < 2 ^ 53"
proof -
  have s: "(0::rat) < 2 powi (expo x - 52)" by simp
  have "(2::rat) ^ 52 * 2 powi (expo x - 52) = 2 powi 52 * 2 powi (expo x - 52)"
    by simp
  also have "\<dots> = 2 powi expo x"
    unfolding two_powi_add by (simp add: add.commute)
  finally have a: "(2::rat) ^ 52 * 2 powi (expo x - 52) = 2 powi expo x" .
  have "(2::rat) ^ 53 * 2 powi (expo x - 52) = 2 powi 53 * 2 powi (expo x - 52)"
    by simp
  also have "\<dots> = 2 powi (expo x + 1)"
    unfolding two_powi_add by (simp add: add.commute)
  finally have b: "(2::rat) ^ 53 * 2 powi (expo x - 52) = 2 powi (expo x + 1)" .
  show "2 ^ 52 \<le> x / 2 powi (expo x - 52)"
    using expo_bounds[OF assms] a s by (simp add: pos_le_divide_eq)
  show "x / 2 powi (expo x - 52) < 2 ^ 53"
    using expo_bounds[OF assms] b s by (simp add: pos_divide_less_eq)
qed

lemma sig_rne_bounds:
  assumes "0 < x"
  shows "2 ^ 52 \<le> rne (x / 2 powi (expo x - 52))" and "rne (x / 2 powi (expo x - 52)) \<le> 2 ^ 53"
proof -
  show "2 ^ 52 \<le> rne (x / 2 powi (expo x - 52))"
    using sig_bounds(1)[OF assms] by (intro rne_ge) simp
  show "rne (x / 2 powi (expo x - 52)) \<le> 2 ^ 53"
    using sig_bounds(2)[OF assms] by (intro rne_le) simp
qed

lemma fl_lower:
  assumes "0 < x"
  shows "2 powi expo x \<le> fl x"
proof -
  have "(2::rat) powi expo x = 2 powi 52 * 2 powi (expo x - 52)"
    unfolding two_powi_add by (simp add: add.commute)
  also have "\<dots> = of_int (2 ^ 52) * 2 powi (expo x - 52)" by simp
  also have "\<dots> \<le> of_int (rne (x / 2 powi (expo x - 52))) * 2 powi (expo x - 52)"
    using sig_rne_bounds(1)[OF assms] by (intro mult_right_mono) (simp_all only: of_int_le_iff, simp)
  finally show ?thesis by (simp only: fl_pos[OF assms])
qed

lemma fl_upper:
  assumes "0 < x"
  shows "fl x \<le> 2 powi (expo x + 1)"
proof -
  have "of_int (rne (x / 2 powi (expo x - 52))) * (2::rat) powi (expo x - 52)
        \<le> of_int (2 ^ 53) * 2 powi (expo x - 52)"
    using sig_rne_bounds(2)[OF assms] by (intro mult_right_mono) (simp_all only: of_int_le_iff, simp)
  also have "\<dots> = 2 powi 53 * 2 powi (expo x - 52)" by simp
  also have "\<dots> = 2 powi (expo x + 1)"
    unfolding two_powi_add by (simp add: add.commute)
  finally show ?thesis by (simp only: fl_pos[OF assms])
qed

lemma fl_pos_pos: "0 < x \<Longrightarrow> 0 < fl x"
proof -
  assume "0 < x"
  then have "2 powi expo x \<le> fl x" by (rule fl_lower)
  moreover have "(0::rat) < 2 powi expo x" by simp
  ultimately show ?thesis by (rule less_le_trans[rotated])
qed

lemma expo_mono:
  assumes "0 < x" "x \<le> y"
  shows "expo x \<le> expo y"
proof (rule ccontr)
  assume "\<not> expo x \<le> expo y"
  then have "expo y + 1 \<le> expo x" by simp
  then have "(2::rat) powi (expo y + 1) \<le> 2 powi expo x"
    by (intro power_int_increasing) simp_all
  moreover have "2 powi expo x \<le> x" using expo_bounds[OF assms(1)] by simp
  moreover have "y < 2 powi (expo y + 1)" using expo_bounds[of y] assms by simp
  ultimately show False using assms(2) by simp
qed

lemma fl_mono_pos:
  assumes "0 < x" "x \<le> y"
  shows "fl x \<le> fl y"
proof (cases "expo x = expo y")
  case True
  have y: "0 < y" using assms by simp
  have "x / 2 powi (expo y - 52) \<le> y / 2 powi (expo y - 52)"
    using assms(2) by (simp add: divide_right_mono)
  then have "rne (x / 2 powi (expo y - 52)) \<le> rne (y / 2 powi (expo y - 52))"
    by (rule rne_mono)
  then have "(of_int (rne (x / 2 powi (expo y - 52))) :: rat) * 2 powi (expo y - 52)
             \<le> of_int (rne (y / 2 powi (expo y - 52))) * 2 powi (expo y - 52)"
    by (intro mult_right_mono) simp_all
  then show ?thesis
    by (simp only: fl_pos[OF assms(1)] fl_pos[OF y] True)
next
  case False
  have y: "0 < y" using assms by simp
  have "expo x + 1 \<le> expo y" using False expo_mono[OF assms] by simp
  then have "(2::rat) powi (expo x + 1) \<le> 2 powi expo y"
    by (intro power_int_increasing) simp_all
  then show ?thesis
    using fl_upper[OF assms(1)] fl_lower[OF y] by simp
qed

lemma fl_nonneg: "0 \<le> x \<Longrightarrow> 0 \<le> fl x"
  using fl_pos_pos[of x] by (cases "x = 0") (simp_all add: fl_zero less_eq_rat_def)

lemma fl_mono:
  assumes "0 \<le> x" "x \<le> y"
  shows "fl x \<le> fl y"
proof (cases "x = 0")
  case True
  then show ?thesis using assms fl_nonneg[of y] by (simp add: fl_zero)
next
  case False
  then show ?thesis using assms by (intro fl_mono_pos) simp_all
qed

lemma fl_err:
  assumes "0 \<le> x"
  shows "\<bar>fl x - x\<bar> \<le> x / 2 ^ 53"
proof (cases "x = 0")
  case True
  then show ?thesis by (simp add: fl_zero)
next
  case False
  then have x: "0 < x" using assms by simp
  define s :: rat where "s = 2 powi (expo x - 52)"
  define m where "m = x / s"
  have s: "0 < s" by (simp add: s_def)
  have xm: "x = m * s" using s by (simp add: m_def)
  have "fl x - x = (of_int (rne m) - m) * s"
    by (simp add: fl_pos[OF x] s_def[symmetric] m_def[symmetric] xm[symmetric] algebra_simps)
  then have "\<bar>fl x - x\<bar> = \<bar>of_int (rne m) - m\<bar> * s"
    using s by (simp add: abs_mult)
  also have "\<dots> \<le> (1 / 2) * s"
    using rne_err[of m] s by (intro mult_right_mono) simp_all
  also have "\<dots> \<le> (m / 2 ^ 53) * s"
  proof -
    have "2 ^ 52 \<le> m" using sig_bounds(1)[OF x] by (simp add: m_def s_def)
    then have "(1::rat) / 2 \<le> m / 2 ^ 53" by simp
    then show ?thesis using s by (intro mult_right_mono) simp_all
  qed
  also have "\<dots> = x / 2 ^ 53" by (simp add: xm)
  finally show ?thesis .
qed

subsection \<open>Evaluating a rounding\<close>

text \<open>
  A rounding is evaluated by naming the scale \<open>2 ^ k\<close> that brings the argument into
  \<open>[2\<^sup>5\<^sup>2, 2\<^sup>5\<^sup>3)\<close> and the integer \<open>n\<close> nearest to the scaled argument.
\<close>

lemma expo_unique:
  assumes "0 < x" "2 powi e \<le> x" "x < 2 powi (e + 1)"
  shows "expo x = e"
proof (rule antisym)
  show "expo x \<le> e"
  proof (rule ccontr)
    assume "\<not> expo x \<le> e"
    then have "e + 1 \<le> expo x" by simp
    then have "(2::rat) powi (e + 1) \<le> 2 powi expo x"
      by (intro power_int_increasing) simp_all
    then show False using expo_bounds[OF assms(1)] assms(3) by simp
  qed
  show "e \<le> expo x"
  proof (rule ccontr)
    assume "\<not> e \<le> expo x"
    then have "expo x + 1 \<le> e" by simp
    then have "(2::rat) powi (expo x + 1) \<le> 2 powi e"
      by (intro power_int_increasing) simp_all
    then show False using expo_bounds[OF assms(1)] assms(2) by simp
  qed
qed

lemma rne_near:
  assumes "\<bar>q - of_int n\<bar> < 1 / 2"
  shows "rne q = n"
proof -
  have "\<bar>of_int (rne q) - q\<bar> \<le> 1 / 2" by (rule rne_err)
  then have "\<bar>(of_int (rne q) :: rat) - of_int n\<bar> < 1" using assms by linarith
  then have "\<bar>of_int (rne q - n) :: rat\<bar> < of_int 1" by simp
  then have "\<bar>rne q - n\<bar> < 1" by (simp only: of_int_abs[symmetric] of_int_less_iff)
  then show ?thesis by simp
qed

lemma rne_near_even:
  assumes "\<bar>q - of_int n\<bar> \<le> 1 / 2" "even n"
  shows "rne q = n"
proof (cases "\<bar>q - of_int n\<bar> < 1 / 2")
  case True
  then show ?thesis by (rule rne_near)
next
  case False
  then have "q = of_int n + 1 / 2 \<or> q = of_int n - 1 / 2"
    using assms(1) by (auto simp: abs_if split: if_splits)
  then show ?thesis
  proof
    assume q: "q = of_int n + 1 / 2"
    have "\<lfloor>q\<rfloor> = n" unfolding q by (rule floor_unique) simp_all
    then show ?thesis using assms(2) by (simp add: rne_def Let_def q)
  next
    assume q: "q = of_int n - 1 / 2"
    have "\<lfloor>q\<rfloor> = n - 1" unfolding q by (rule floor_unique) simp_all
    then show ?thesis using assms(2) by (simp add: rne_def Let_def q)
  qed
qed

lemma fl_scaled:
  fixes k :: nat
  assumes "2 ^ 52 \<le> x * 2 ^ k" "x * 2 ^ k < 2 ^ 53"
  shows "fl x = of_int (rne (x * 2 ^ k)) / 2 ^ k"
proof -
  have p: "(0::rat) < 2 ^ k" by simp
  have x: "0 < x"
  proof (rule ccontr)
    assume "\<not> 0 < x"
    then have "x * 2 ^ k \<le> 0" using p by (simp add: mult_le_0_iff)
    moreover have "(0::rat) < 2 ^ 52" by simp
    ultimately show False using assms(1) by linarith
  qed
  have s: "(2::rat) powi (- int k) = 1 / 2 ^ k"
    by (simp add: power_int_minus divide_inverse)
  have lo: "(2::rat) powi (52 - int k) \<le> x"
  proof -
    have "(2::rat) powi (52 - int k) = 2 ^ 52 / 2 ^ k"
      by (simp add: power_int_diff)
    also have "\<dots> \<le> x" using assms(1) p by (simp add: pos_divide_le_eq)
    finally show ?thesis .
  qed
  have hi: "x < (2::rat) powi (52 - int k + 1)"
  proof -
    have "x < 2 ^ 53 / 2 ^ k" using assms(2) p by (simp add: pos_less_divide_eq)
    also have "\<dots> = (2::rat) powi (53 - int k)"
      by (simp add: power_int_diff)
    finally show ?thesis by (simp add: add.commute)
  qed
  have e: "expo x = 52 - int k" using x lo hi by (rule expo_unique)
  show ?thesis
    by (simp add: fl_pos[OF x] e s)
qed

lemma fl_evalI:
  fixes k :: nat
  assumes "2 ^ 52 \<le> x * 2 ^ k" "x * 2 ^ k < 2 ^ 53" "\<bar>x * 2 ^ k - of_int n\<bar> < 1 / 2"
    and "y = of_int n / 2 ^ k"
  shows "fl x = y"
  using fl_scaled[OF assms(1,2)] rne_near[OF assms(3)] assms(4) by simp

lemma fl_evalI_even:
  fixes k :: nat
  assumes "2 ^ 52 \<le> x * 2 ^ k" "x * 2 ^ k < 2 ^ 53" "\<bar>x * 2 ^ k - of_int n\<bar> \<le> 1 / 2"
    and "even n" and "y = of_int n / 2 ^ k"
  shows "fl x = y"
  using fl_scaled[OF assms(1,2)] rne_near_even[OF assms(3,4)] assms(5) by simp

subsection \<open>The literals\<close>

lemma weightR_eq: "weightR = 7566047373982433 / 36028797018963968"
  unfolding weightR_def by (rule fl_evalI[where k = 55 and n = 7566047373982433]) simp_all

lemma weightG_eq: "weightG = 3242591731706757 / 4503599627370496"
  unfolding weightG_def by (rule fl_evalI[where k = 53 and n = 6485183463413514]) simp_all

lemma weightB_eq: "weightB = 1261007895663739 / 18014398509481984"
  unfolding weightB_def by (rule fl_evalI[where k = 56 and n = 5044031582654956]) simp_all

lemma FONT_SIZE_ADJUST_eq: "FONT_SIZE_ADJUST = 1 / 2"
  unfolding FONT_SIZE_ADJUST_def by (rule fl_evalI[where k = 53 and n = 4503599627370496]) simp_all

section \<open>The luminance quantizer\<close>

lemma length_ASCII_RAMP: "length ASCII_RAMP = 65"
  by (simp add: ASCII_RAMP_def)

lemma weights_nonneg: "0 \<le> weightR" "0 \<le> weightG" "0 \<le> weightB"
  by (simp_all add: weightR_def weightG_def weightB_def fl_nonneg)

lemma gray_nonneg:
  assumes "0 \<le> r" "0 \<le> g" "0 \<le> b"
  shows "0 \<le> gray r g b"
  unfolding gray_def using assms weights_nonneg
  by (intro fl_nonneg add_nonneg_nonneg mult_nonneg_nonneg)

lemma gray_mono:
  assumes "0 \<le> r" "r \<le> r'" "0 \<le> g" "g \<le> g'" "0 \<le> b" "b \<le> b'"
  shows "gray r g b \<le> gray r' g' b'"
proof -
  have R: "fl (weightR * r) \<le> fl (weightR * r')"
    using assms weights_nonneg by (intro fl_mono mult_nonneg_nonneg mult_left_mono)
  have G: "fl (weightG * g) \<le> fl (weightG * g')"
    using assms weights_nonneg by (intro fl_mono mult_nonneg_nonneg mult_left_mono)
  have B: "fl (weightB * b) \<le> fl (weightB * b')"
    using assms weights_nonneg by (intro fl_mono mult_nonneg_nonneg mult_left_mono)
  have nn: "0 \<le> fl (weightR * r)" "0 \<le> fl (weightG * g)" "0 \<le> fl (weightB * b)"
    using assms weights_nonneg by (simp_all add: fl_nonneg)
  have RG: "fl (fl (weightR * r) + fl (weightG * g)) \<le> fl (fl (weightR * r') + fl (weightG * g'))"
    using R G nn by (intro fl_mono) (simp_all add: add_mono)
  have "0 \<le> fl (fl (weightR * r) + fl (weightG * g))"
    using nn by (intro fl_nonneg) simp
  then show ?thesis
    unfolding gray_def using RG B nn by (intro fl_mono) (simp_all add: add_mono)
qed

lemma rampIndex_mono:
  assumes "0 \<le> a" "a \<le> b"
  shows "rampIndex a \<le> rampIndex b"
proof -
  have n: "(0::rat) \<le> of_nat (length ASCII_RAMP) - 1"
    by (simp add: length_ASCII_RAMP)
  have d: "fl (a / 255) \<le> fl (b / 255)"
    using assms by (intro fl_mono divide_right_mono) simp_all
  have "0 \<le> fl (a / 255)" using assms by (intro fl_nonneg) simp
  then have "fl (fl (a / 255) * (of_nat (length ASCII_RAMP) - 1))
             \<le> fl (fl (b / 255) * (of_nat (length ASCII_RAMP) - 1))"
    using d n by (intro fl_mono) (simp_all add: mult_right_mono)
  then show ?thesis
    unfolding rampIndex_def by (rule floor_mono)
qed

lemma quantize_mono:
  assumes "r \<le> r'" "g \<le> g'" "b \<le> b'"
  shows "quantize r g b \<le> quantize r' g' b'"
  unfolding quantize_def using assms
  by (intro rampIndex_mono gray_mono gray_nonneg) simp_all

lemma gray_black: "gray 0 0 0 = 0"
  by (simp add: gray_def fl_zero)

lemma quantize_black: "quantize 0 0 0 = 0"
  by (simp add: quantize_def rampIndex_def gray_black fl_zero)

lemma white_red: "fl (weightR * 255) = 3768246250713907 / 70368744177664"
  unfolding weightR_eq by (rule fl_evalI[where k = 47 and n = 7536492501427814]) simp_all

lemma white_green: "fl (weightG * 255) = 6459850715509555 / 35184372088832"
  unfolding weightG_eq by (rule fl_evalI[where k = 45 and n = 6459850715509555]) simp_all

lemma white_blue: "fl (weightB * 255) = 2512164167142605 / 140737488355328"
  unfolding weightB_eq by (rule fl_evalI[where k = 48 and n = 5024328334285210]) simp_all

lemma white_red_green: "fl (fl (weightR * 255) + fl (weightG * 255)) = 2085993460216627 / 8796093022208"
  unfolding white_red white_green by (rule fl_evalI_even[where k = 45 and n = 8343973840866508]) simp_all

lemma gray_white: "gray 255 255 255 = 8972014882652159 / 35184372088832"
  unfolding gray_def white_red_green white_blue by (rule fl_evalI[where k = 45 and n = 8972014882652159]) simp_all

lemma white_fraction: "fl (gray 255 255 255 / 255) = 9007199254740991 / 9007199254740992"
  unfolding gray_white by (rule fl_evalI[where k = 53 and n = 9007199254740991]) simp_all

lemma white_scaled: "fl (fl (gray 255 255 255 / 255) * 64) = 9007199254740991 / 140737488355328"
  unfolding white_fraction by (rule fl_evalI[where k = 47 and n = 9007199254740991]) simp_all

lemma quantize_white: "quantize 255 255 255 = 63"
proof -
  have "quantize 255 255 255 = \<lfloor>fl (fl (gray 255 255 255 / 255) * 64)\<rfloor>"
    by (simp add: quantize_def rampIndex_def length_ASCII_RAMP)
  also have "\<dots> = 63"
    unfolding white_scaled by (rule floor_unique) simp_all
  finally show ?thesis .
qed

lemma mid_red: "fl (weightR * 128) = 7566047373982433 / 281474976710656"
  unfolding weightR_eq by (rule fl_evalI[where k = 48 and n = 7566047373982433]) simp_all

lemma mid_green: "fl (weightG * 128) = 3242591731706757 / 35184372088832"
  unfolding weightG_eq by (rule fl_evalI[where k = 46 and n = 6485183463413514]) simp_all

lemma mid_blue: "fl (weightB * 128) = 1261007895663739 / 140737488355328"
  unfolding weightB_eq by (rule fl_evalI[where k = 49 and n = 5044031582654956]) simp_all

lemma mid_red_green: "fl (fl (weightR * 128) + fl (weightG * 128)) = 4188347653454561 / 35184372088832"
  unfolding mid_red mid_green by (rule fl_evalI[where k = 46 and n = 8376695306909122]) simp_all

lemma gray_mid: "gray 128 128 128 = 128"
  unfolding gray_def mid_red_green mid_blue by (rule fl_evalI_even[where k = 46 and n = 9007199254740992]) simp_all

lemma mid_fraction: "fl (gray 128 128 128 / 255) = 282578800148737 / 562949953421312"
  unfolding gray_mid by (rule fl_evalI[where k = 53 and n = 4521260802379792]) simp_all

lemma mid_scaled: "fl (fl (gray 128 128 128 / 255) * 64) = 282578800148737 / 8796093022208"
  unfolding mid_fraction by (rule fl_evalI[where k = 47 and n = 4521260802379792]) simp_all

lemma quantize_mid: "quantize 128 128 128 = 32"
proof -
  have "quantize 128 128 128 = \<lfloor>fl (fl (gray 128 128 128 / 255) * 64)\<rfloor>"
    by (simp add: quantize_def rampIndex_def length_ASCII_RAMP)
  also have "\<dots> = 32"
    unfolding mid_scaled by (rule floor_unique) simp_all
  finally show ?thesis .
qed

lemma quantize_bounds:
  assumes "r \<le> 255" "g \<le> 255" "b \<le> 255"
  shows "0 \<le> quantize r g b" and "quantize r g b \<le> 63"
proof -
  show "0 \<le> quantize r g b"
    using quantize_mono[of 0 r 0 g 0 b] by (simp add: quantize_black)
  show "quantize r g b \<le> 63"
    using quantize_mono[OF assms] by (simp add: quantize_white)
qed

text \<open>
  Claim C1. For channel values from 0 to 255 the ramp index computed by lines 80 and 81 is
  an integer from \<open>0\<close> to \<open>N - 1\<close>, where \<open>N\<close> is the length of the ramp, so that
  line 82 appends the glyph at that index and never reads past the ramp; this holds at
  \<open>(0, 0, 0)\<close> and \<open>(255, 255, 255)\<close> in particular. The index is monotone in each
  channel, so the two corners bound it.
\<close>

theorem quantizer_in_range:
  assumes "r \<le> 255" "g \<le> 255" "b \<le> 255"
  shows "0 \<le> quantize r g b \<and> quantize r g b \<le> int (length ASCII_RAMP) - 1
         \<and> rampChar (Some (quantize r g b)) = [ASCII_RAMP ! nat (quantize r g b)]"
  using quantize_bounds[OF assms] by (simp add: rampChar_def length_ASCII_RAMP)

theorem quantizer_in_range_witness:
  "0 \<le> quantize 255 255 255 \<and> quantize 255 255 255 \<le> int (length ASCII_RAMP) - 1
   \<and> rampChar (Some (quantize 255 255 255)) = [ASCII_RAMP ! nat (quantize 255 255 255)]
   \<and> 0 \<le> quantize 0 0 0 \<and> quantize 0 0 0 \<le> int (length ASCII_RAMP) - 1
   \<and> rampChar (Some (quantize 0 0 0)) = [ASCII_RAMP ! nat (quantize 0 0 0)]"
  using quantizer_in_range[of 255 255 255] quantizer_in_range[of 0 0 0] by simp

text \<open>
  Claim C5. Black gets index \<open>0\<close>, but white does not get \<open>N - 1 = 64\<close>: in binary64
  the sum \<^verbatim>\<open>0.21 * 255 + 0.72 * 255 + 0.07 * 255\<close> is \<open>254.99999999999997\<close>, one unit in
  the last place below 255, the quotient by 255 is below 1, and the floor of the product with
  64 is \<open>63\<close>. With the bound of \<open>quantize_bounds\<close> the last glyph of the ramp is never
  produced.
\<close>

theorem quantizer_white_misses_last_glyph:
  "quantize 0 0 0 = 0 \<and> quantize 255 255 255 = 63 \<and> int (length ASCII_RAMP) - 1 = 64
   \<and> gray 255 255 255 = 8972014882652159 / 35184372088832"
  by (simp add: quantize_black quantize_white length_ASCII_RAMP gray_white)

text \<open>
  Claim C6. Raising the three channels by the same amount, all values staying within 0 to
  255, never lowers the ramp index: every rounding and the floor are monotone.
\<close>

theorem quantizer_monotone:
  assumes "r + d \<le> 255" "g + d \<le> 255" "b + d \<le> 255"
  shows "quantize r g b \<le> quantize (r + d) (g + d) (b + d)"
  by (rule quantize_mono) simp_all

theorem quantizer_monotone_witness:
  "quantize 0 0 0 \<le> quantize (0 + 128) (0 + 128) (0 + 128)
   \<and> quantize 0 0 0 = 0 \<and> quantize 128 128 128 = 32"
proof -
  have "quantize 0 0 0 \<le> quantize (0 + 128) (0 + 128) (0 + 128)"
    by (rule quantizer_monotone) simp_all
  then show ?thesis by (simp add: quantize_black quantize_mid)
qed

section \<open>The output geometry\<close>

lemma fl_upper_rel:
  assumes "0 \<le> x"
  shows "fl x \<le> x * (1 + 1 / 2 ^ 53)"
proof -
  have "fl x - x \<le> x / 2 ^ 53" using fl_err[OF assms] by linarith
  moreover have "x * (1 + 1 / 2 ^ 53) = x + x / 2 ^ 53" by (simp only: distrib_left mult_1_right times_divide_eq_right)
  ultimately show ?thesis by linarith
qed

lemma fl_lower_rel:
  assumes "0 \<le> x"
  shows "x * (1 - 1 / 2 ^ 53) \<le> fl x"
proof -
  have "x - fl x \<le> x / 2 ^ 53" using fl_err[OF assms] by linarith
  moreover have "x * (1 - 1 / 2 ^ 53) = x - x / 2 ^ 53" by (simp only: right_diff_distrib mult_1_right times_divide_eq_right)
  ultimately show ?thesis by linarith
qed

lemma scaled_upper:
  assumes "0 \<le> x" "0 \<le> W"
  shows "fl (fl (fl x * W) * (1 / 2)) \<le> x * W * (1 / 2) * (1 + 4 / 2 ^ 53)"
proof -
  define u :: rat where "u = 1 / 2 ^ 53"
  have u: "0 \<le> 1 + u" by (simp add: u_def)
  have a0: "0 \<le> fl x" using assms(1) by (rule fl_nonneg)
  have a: "fl x \<le> x * (1 + u)" unfolding u_def using assms(1) by (rule fl_upper_rel)
  have b0: "0 \<le> fl (fl x * W)" using a0 assms(2) by (intro fl_nonneg) simp
  have "fl (fl x * W) \<le> fl x * W * (1 + u)"
    unfolding u_def using a0 assms(2) by (intro fl_upper_rel) simp
  also have "\<dots> \<le> x * (1 + u) * W * (1 + u)"
    using a assms(2) u by (intro mult_right_mono) simp_all
  finally have b: "fl (fl x * W) \<le> x * (1 + u) * W * (1 + u)" .
  have "fl (fl (fl x * W) * (1 / 2)) \<le> fl (fl x * W) * (1 / 2) * (1 + u)"
    unfolding u_def using b0 by (intro fl_upper_rel) simp
  also have "\<dots> \<le> x * (1 + u) * W * (1 + u) * (1 / 2) * (1 + u)"
    using b u by (intro mult_right_mono) simp_all
  also have "\<dots> = x * W * (1 / 2) * (1 + u) ^ 3"
    by (simp add: power3_eq_cube)
  also have "\<dots> \<le> x * W * (1 / 2) * (1 + 4 / 2 ^ 53)"
  proof -
    have "(1 + u) ^ 3 \<le> 1 + 4 / 2 ^ 53" unfolding u_def by code_simp
    then show ?thesis using assms by (intro mult_left_mono) simp_all
  qed
  finally show ?thesis .
qed

lemma scaled_lower:
  assumes "0 \<le> x" "0 \<le> W"
  shows "x * W * (1 / 2) * (1 - 3 / 2 ^ 53) \<le> fl (fl (fl x * W) * (1 / 2))"
proof -
  define u :: rat where "u = 1 / 2 ^ 53"
  have u: "0 \<le> 1 - u" by (simp add: u_def)
  have a0: "0 \<le> fl x" using assms(1) by (rule fl_nonneg)
  have a: "x * (1 - u) \<le> fl x" unfolding u_def using assms(1) by (rule fl_lower_rel)
  have b0: "0 \<le> fl (fl x * W)" using a0 assms(2) by (intro fl_nonneg) simp
  have "x * (1 - u) * W * (1 - u) \<le> fl x * W * (1 - u)"
    using a assms(2) u by (intro mult_right_mono) simp_all
  also have "\<dots> \<le> fl (fl x * W)"
    unfolding u_def using a0 assms(2) by (intro fl_lower_rel) simp
  finally have b: "x * (1 - u) * W * (1 - u) \<le> fl (fl x * W)" .
  have "x * W * (1 / 2) * (1 - 3 / 2 ^ 53) \<le> x * W * (1 / 2) * (1 - u) ^ 3"
  proof -
    have "1 - 3 / 2 ^ 53 \<le> (1 - u) ^ 3" unfolding u_def by code_simp
    then show ?thesis using assms by (intro mult_left_mono) simp_all
  qed
  also have "\<dots> = x * (1 - u) * W * (1 - u) * (1 / 2) * (1 - u)"
    by (simp add: power3_eq_cube)
  also have "\<dots> \<le> fl (fl x * W) * (1 / 2) * (1 - u)"
    using b u by (intro mult_right_mono) simp_all
  also have "\<dots> \<le> fl (fl (fl x * W) * (1 / 2))"
    unfolding u_def using b0 by (intro fl_lower_rel) simp
  finally show ?thesis .
qed

lemma canvasHeight_loaded:
  "videoWidth v \<noteq> 0 \<Longrightarrow>
   canvasHeight v cw =
     Some \<lfloor>fl (fl (fl (of_nat (unat (videoHeight v)) / of_nat (unat (videoWidth v))) * of_nat cw)
                * (1 / 2))\<rfloor>"
  by (simp add: canvasHeight_def aspectRatio_def FONT_SIZE_ADJUST_eq)

lemma exact_as_quotient:
  fixes h w W :: nat
  shows "(of_nat h / of_nat w) * of_nat W * (1 / 2 :: rat) = of_nat (h * W) / of_nat (2 * w)"
  by simp

lemma gap_below:
  fixes h w W :: nat and n :: int
  assumes "0 < w" "(of_nat (h * W) / of_nat (2 * w) :: rat) < of_int n"
  shows "(of_nat (h * W) / of_nat (2 * w) :: rat) \<le> of_int n - 1 / of_nat (2 * w)"
proof -
  have w: "(0::rat) < of_nat (2 * w)" using assms(1) by simp
  have "(of_nat (h * W) :: rat) < of_int n * of_nat (2 * w)"
    using assms(2) w by (simp only: pos_divide_less_eq)
  then have "(of_int (int (h * W)) :: rat) < of_int (n * int (2 * w))"
    by simp
  then have "int (h * W) < n * int (2 * w)"
    by (simp only: of_int_less_iff)
  then have "int (h * W) \<le> n * int (2 * w) - 1" by simp
  then have "(of_int (int (h * W)) :: rat) \<le> of_int (n * int (2 * w) - 1)"
    by (simp only: of_int_le_iff)
  then have "(of_nat (h * W) :: rat) \<le> of_int n * of_nat (2 * w) - 1"
    by simp
  then have "(of_nat (h * W) :: rat) / of_nat (2 * w) \<le> (of_int n * of_nat (2 * w) - 1) / of_nat (2 * w)"
    using w by (intro divide_right_mono) simp_all
  also have "\<dots> = of_int n - 1 / of_nat (2 * w)"
    using w by (simp add: diff_divide_distrib)
  finally show ?thesis .
qed

lemma gap_above:
  fixes h w W :: nat and n :: int
  assumes "0 < w" "of_int n < (of_nat (h * W) / of_nat (2 * w) :: rat)"
  shows "of_int n + 1 / of_nat (2 * w) \<le> (of_nat (h * W) / of_nat (2 * w) :: rat)"
proof -
  have w: "(0::rat) < of_nat (2 * w)" using assms(1) by simp
  have "of_int n * of_nat (2 * w) < (of_nat (h * W) :: rat)"
    using assms(2) w by (simp only: pos_less_divide_eq)
  then have "(of_int (n * int (2 * w)) :: rat) < of_int (int (h * W))"
    by simp
  then have "n * int (2 * w) < int (h * W)"
    by (simp only: of_int_less_iff)
  then have "n * int (2 * w) + 1 \<le> int (h * W)" by simp
  then have "(of_int (n * int (2 * w) + 1) :: rat) \<le> of_int (int (h * W))"
    by (simp only: of_int_le_iff)
  then have "of_int n * of_nat (2 * w) + 1 \<le> (of_nat (h * W) :: rat)"
    by simp
  then have "(of_int n * of_nat (2 * w) + 1) / of_nat (2 * w) \<le> (of_nat (h * W) :: rat) / of_nat (2 * w)"
    using w by (intro divide_right_mono) simp_all
  moreover have "(of_int n * of_nat (2 * w) + 1) / (of_nat (2 * w) :: rat) = of_int n + 1 / of_nat (2 * w)"
    using w by (simp add: add_divide_distrib)
  ultimately show ?thesis by simp
qed

lemma unat32_bound: "unat (x :: 32 word) < 2 ^ 32"
  using unsigned_less[of x] by simp

lemma inv_width_bounds:
  fixes w :: nat
  assumes "0 < w" "w < 2 ^ 32"
  shows "1 / 2 ^ 33 \<le> (1 / of_nat (2 * w) :: rat)" and "(1 / of_nat (2 * w) :: rat) \<le> 1 / 2"
proof -
  have "2 * w \<le> 2 ^ 33" using assms(2) by simp
  then have "(of_nat (2 * w) :: rat) \<le> of_nat (2 ^ 33)" by (simp only: of_nat_le_iff)
  then have le: "(of_nat (2 * w) :: rat) \<le> 2 ^ 33" by simp
  have pos: "(0::rat) < of_nat (2 * w)" using assms(1) by simp
  show "1 / 2 ^ 33 \<le> (1 / of_nat (2 * w) :: rat)"
    using le pos by (intro divide_left_mono) simp_all
  have "2 \<le> 2 * w" using assms(1) by simp
  then have "(of_nat 2 :: rat) \<le> of_nat (2 * w)" by (simp only: of_nat_le_iff)
  then have "(2::rat) \<le> of_nat (2 * w)" by simp
  then show "(1 / of_nat (2 * w) :: rat) \<le> 1 / 2"
    by (intro divide_left_mono) simp_all
qed

lemma scaled_bounds:
  fixes h w W :: nat
  assumes "0 < w"
  shows "0 \<le> fl (fl (fl (of_nat h / of_nat w) * of_nat W) * (1 / 2))"
    and "fl (fl (fl (of_nat h / of_nat w) * of_nat W) * (1 / 2))
         \<le> (of_nat (h * W) / of_nat (2 * w)) * (1 + 4 / 2 ^ 53)"
    and "(of_nat (h * W) / of_nat (2 * w)) * (1 - 3 / 2 ^ 53)
         \<le> fl (fl (fl (of_nat h / of_nat w) * of_nat W) * (1 / 2))"
proof -
  have x: "(0::rat) \<le> of_nat h / of_nat w" by simp
  have W: "(0::rat) \<le> of_nat W" by simp
  have "0 \<le> fl (of_nat h / of_nat w)" using x by (rule fl_nonneg)
  then have "0 \<le> fl (fl (of_nat h / of_nat w) * of_nat W)" by (intro fl_nonneg) simp
  then show "0 \<le> fl (fl (fl (of_nat h / of_nat w) * of_nat W) * (1 / 2))"
    by (intro fl_nonneg) simp
  show "fl (fl (fl (of_nat h / of_nat w) * of_nat W) * (1 / 2))
        \<le> (of_nat (h * W) / of_nat (2 * w)) * (1 + 4 / 2 ^ 53)"
    using scaled_upper[OF x W] by (simp only: exact_as_quotient)
  show "(of_nat (h * W) / of_nat (2 * w)) * (1 - 3 / 2 ^ 53)
        \<le> fl (fl (fl (of_nat h / of_nat w) * of_nat W) * (1 / 2))"
    using scaled_lower[OF x W] by (simp only: exact_as_quotient)
qed

lemma height_sign:
  fixes h w W :: nat
  assumes "0 < w" "w < 2 ^ 32"
  defines "c \<equiv> fl (fl (fl (of_nat h / of_nat w) * of_nat W) * (1 / 2))"
  shows "0 \<le> \<lfloor>c\<rfloor>" and "2 * w < h * W \<Longrightarrow> 0 < \<lfloor>c\<rfloor>" and "h * W < 2 * w \<Longrightarrow> \<lfloor>c\<rfloor> = 0"
proof -
  define vv :: rat where "vv = of_nat (h * W) / of_nat (2 * w)"
  define t :: rat where "t = 1 / of_nat (2 * w)"
  have t: "1 / 2 ^ 33 \<le> t" "t \<le> 1 / 2"
    unfolding t_def using inv_width_bounds[OF assms(1,2)] by simp_all
  have c0: "0 \<le> c" and up: "c \<le> vv * (1 + 4 / 2 ^ 53)" and lo: "vv * (1 - 3 / 2 ^ 53) \<le> c"
    unfolding c_def vv_def using scaled_bounds[OF assms(1), of h W] by simp_all
  show nonneg: "0 \<le> \<lfloor>c\<rfloor>" using c0 by simp
  show "0 < \<lfloor>c\<rfloor>" if "2 * w < h * W"
  proof -
    have "(of_nat (2 * w) :: rat) < of_nat (h * W)" using that by (simp only: of_nat_less_iff)
    then have "of_int 1 < vv"
      unfolding vv_def using assms(1) by (simp add: pos_less_divide_eq)
    then have "of_int 1 + t \<le> vv"
      unfolding vv_def t_def using assms(1) by (intro gap_above)
    then have "(1 + t) * (1 - 3 / 2 ^ 53) \<le> vv * (1 - 3 / 2 ^ 53)"
      by (intro mult_right_mono) simp_all
    moreover have "1 \<le> (1 + t) * (1 - 3 / 2 ^ 53)"
      using t(1) by (simp add: algebra_simps)
    ultimately have "1 \<le> c" using lo by linarith
    then have "1 \<le> \<lfloor>c\<rfloor>" by (simp add: le_floor_iff)
    then show ?thesis by simp
  qed
  show "\<lfloor>c\<rfloor> = 0" if "h * W < 2 * w"
  proof -
    have "(of_nat (h * W) :: rat) < of_nat (2 * w)" using that by (simp only: of_nat_less_iff)
    then have "vv < of_int 1"
      unfolding vv_def using assms(1) by (simp add: pos_divide_less_eq)
    then have "vv \<le> of_int 1 - t"
      unfolding vv_def t_def using assms(1) by (intro gap_below)
    then have "vv * (1 + 4 / 2 ^ 53) \<le> (1 - t) * (1 + 4 / 2 ^ 53)"
      by (intro mult_right_mono) simp_all
    moreover have "(1 - t) * (1 + 4 / 2 ^ 53) < 1"
      using t(1) by (simp add: algebra_simps)
    ultimately have "c < 1" using up by linarith
    then have "\<lfloor>c\<rfloor> < 1" by (simp add: floor_less_iff)
    then show ?thesis using nonneg by linarith
  qed
qed

lemma height_near_exact:
  fixes h w W :: nat
  assumes "0 < w" "w < 2 ^ 32" "h < 2 ^ 32" "W \<le> 300"
  defines "c \<equiv> fl (fl (fl (of_nat h / of_nat w) * of_nat W) * (1 / 2))"
  shows "exactHeight h w W - 1 \<le> \<lfloor>c\<rfloor>" and "\<lfloor>c\<rfloor> \<le> exactHeight h w W"
    and "\<not> 2 * w dvd h * W \<Longrightarrow> \<lfloor>c\<rfloor> = exactHeight h w W"
proof -
  define vv :: rat where "vv = of_nat (h * W) / of_nat (2 * w)"
  define t :: rat where "t = 1 / of_nat (2 * w)"
  define n where "n = \<lfloor>vv\<rfloor>"
  have e: "exactHeight h w W = n"
    unfolding exactHeight_def n_def vv_def by (simp only: exact_as_quotient)
  have t: "0 < t" "t \<le> 1 / 2"
    unfolding t_def using inv_width_bounds[OF assms(1,2)] assms(1) by simp_all
  have v0: "0 \<le> vv" by (simp add: vv_def)
  have up: "c \<le> vv * (1 + 4 / 2 ^ 53)" and lo: "vv * (1 - 3 / 2 ^ 53) \<le> c"
    unfolding c_def vv_def using scaled_bounds[OF assms(1), of h W] by simp_all
  have "h * W \<le> 2 ^ 32 * 300"
    using assms(3,4) by (intro mult_mono) simp_all
  then have "(of_nat (h * W) :: rat) \<le> of_nat (2 ^ 32 * 300)" by (simp only: of_nat_le_iff)
  then have hw: "(of_nat (h * W) :: rat) \<le> 2 ^ 32 * 300" by simp
  have vt: "vv = of_nat (h * W) * t" by (simp add: vv_def t_def)
  have "of_nat (h * W) * (4 / 2 ^ 53) < (1::rat)" using hw by simp
  then have "of_nat (h * W) * (4 / 2 ^ 53) * t < 1 * t"
    using t(1) by (intro mult_strict_right_mono)
  then have small: "vv * (4 / 2 ^ 53) < t" by (simp add: vt mult.commute mult.left_commute)
  have "vv < of_int (n + 1)" unfolding n_def by linarith
  then have "vv \<le> of_int (n + 1) - t"
    unfolding vv_def t_def using assms(1) by (intro gap_below)
  moreover have "vv * (1 + 4 / 2 ^ 53) = vv + vv * (4 / 2 ^ 53)" by (simp add: algebra_simps)
  ultimately have "c < of_int (n + 1)" using up small by linarith
  then have "\<lfloor>c\<rfloor> < n + 1" by (simp only: floor_less_iff)
  then show upper: "\<lfloor>c\<rfloor> \<le> exactHeight h w W" using e by simp
  have nv: "of_int n \<le> vv" unfolding n_def by simp
  have split: "vv * (1 - 3 / 2 ^ 53) = vv - vv * (3 / 2 ^ 53)" by (simp add: algebra_simps)
  have three: "vv * (3 / 2 ^ 53) \<le> vv * (4 / 2 ^ 53)" using v0 by (intro mult_left_mono) simp_all
  have "of_int (n - 1) \<le> c" using nv split three lo small t(2) by simp
  then have "n - 1 \<le> \<lfloor>c\<rfloor>" by (simp only: le_floor_iff)
  then show "exactHeight h w W - 1 \<le> \<lfloor>c\<rfloor>" using e by simp
  show "\<lfloor>c\<rfloor> = exactHeight h w W" if nd: "\<not> 2 * w dvd h * W"
  proof -
    have w2: "(0::rat) < of_nat (2 * w)" using assms(1) by simp
    have "vv \<noteq> of_int n"
    proof
      assume "vv = of_int n"
      then have "(of_nat (h * W) :: rat) = of_int n * of_nat (2 * w)"
        unfolding vv_def using w2 by (simp add: divide_eq_eq)
      then have "(of_int (int (h * W)) :: rat) = of_int (n * int (2 * w))" by simp
      then have "int (h * W) = n * int (2 * w)" by (simp only: of_int_eq_iff)
      then have "int (2 * w) dvd int (h * W)" by simp
      then have "2 * w dvd h * W" by (simp only: int_dvd_int_iff)
      then show False using nd by simp
    qed
    then have "of_int n < vv" using nv by simp
    then have "of_int n + t \<le> vv"
      unfolding vv_def t_def using assms(1) by (intro gap_above)
    then have "of_int n \<le> c" using split three lo small by linarith
    then have "n \<le> \<lfloor>c\<rfloor>" by (simp only: le_floor_iff)
    then show ?thesis using upper e by simp
  qed
qed

lemma canvasHeight_evalI:
  assumes "videoWidth v \<noteq> 0"
    and "of_nat (unat (videoHeight v)) / of_nat (unat (videoWidth v)) = q"
    and "fl q = a" and "fl (a * of_nat cw) = b" and "fl (b * (1 / 2)) = c"
    and "\<lfloor>c\<rfloor> = k"
  shows "canvasHeight v cw = Some k"
  using assms by (simp add: canvasHeight_def aspectRatio_def FONT_SIZE_ADJUST_eq)

lemma canvasHeight_hd1080: "canvasHeight hd1080 150 = Some 42"
proof (rule canvasHeight_evalI[where q = "9 / 16" and a = "9 / 16" and b = "675 / 8" and c = "675 / 16"])
  show "videoWidth hd1080 \<noteq> 0"
    by (simp add: hd1080_def)
  show "of_nat (unat (videoHeight hd1080)) / of_nat (unat (videoWidth hd1080)) = (9 / 16 :: rat)"
    by (simp add: hd1080_def)
  show "fl (9 / 16) = 9 / 16"
    by (rule fl_evalI[where k = 53 and n = 5066549580791808]) simp_all
  show "fl (9 / 16 * of_nat 150) = 675 / 8"
    by (rule fl_evalI[where k = 46 and n = 5937362789990400]) simp_all
  show "fl (675 / 8 * (1 / 2)) = 675 / 16"
    by (rule fl_evalI[where k = 47 and n = 5937362789990400]) simp_all
  show "\<lfloor>675 / 16 :: rat\<rfloor> = 42"
    by (rule floor_unique) simp_all
qed

lemma canvasHeight_sif: "canvasHeight sif 88 = Some 29"
proof (rule canvasHeight_evalI[where q = "15 / 22" and a = "6141272219141585 / 9007199254740992" and b = "8444249301319679 / 140737488355328" and c = "8444249301319679 / 281474976710656"])
  show "videoWidth sif \<noteq> 0"
    by (simp add: sif_def)
  show "of_nat (unat (videoHeight sif)) / of_nat (unat (videoWidth sif)) = (15 / 22 :: rat)"
    by (simp add: sif_def)
  show "fl (15 / 22) = 6141272219141585 / 9007199254740992"
    by (rule fl_evalI[where k = 53 and n = 6141272219141585]) simp_all
  show "fl (6141272219141585 / 9007199254740992 * of_nat 88) = 8444249301319679 / 140737488355328"
    by (rule fl_evalI[where k = 47 and n = 8444249301319679]) simp_all
  show "fl (8444249301319679 / 140737488355328 * (1 / 2)) = 8444249301319679 / 281474976710656"
    by (rule fl_evalI[where k = 48 and n = 8444249301319679]) simp_all
  show "\<lfloor>8444249301319679 / 281474976710656 :: rat\<rfloor> = 29"
    by (rule floor_unique) simp_all
qed

lemma canvasHeight_banner: "canvasHeight banner 50 = Some 0"
proof (rule canvasHeight_evalI[where q = "1 / 30" and a = "4803839602528529 / 144115188075855872" and b = "7505999378950827 / 4503599627370496" and c = "7505999378950827 / 9007199254740992"])
  show "videoWidth banner \<noteq> 0"
    by (simp add: banner_def)
  show "of_nat (unat (videoHeight banner)) / of_nat (unat (videoWidth banner)) = (1 / 30 :: rat)"
    by (simp add: banner_def)
  show "fl (1 / 30) = 4803839602528529 / 144115188075855872"
    by (rule fl_evalI[where k = 57 and n = 4803839602528529]) simp_all
  show "fl (4803839602528529 / 144115188075855872 * of_nat 50) = 7505999378950827 / 4503599627370496"
    by (rule fl_evalI[where k = 52 and n = 7505999378950827]) simp_all
  show "fl (7505999378950827 / 4503599627370496 * (1 / 2)) = 7505999378950827 / 9007199254740992"
    by (rule fl_evalI[where k = 53 and n = 7505999378950827]) simp_all
  show "\<lfloor>7505999378950827 / 9007199254740992 :: rat\<rfloor> = 0"
    by (rule floor_unique) simp_all
qed

lemma canvasHeight_strip: "canvasHeight strip 150 = Some 1"
proof (rule canvasHeight_evalI[where q = "1 / 75" and a = "7686143364045647 / 576460752303423488" and b = "2" and c = "1"])
  show "videoWidth strip \<noteq> 0"
    by (simp add: strip_def)
  show "of_nat (unat (videoHeight strip)) / of_nat (unat (videoWidth strip)) = (1 / 75 :: rat)"
    by (simp add: strip_def)
  show "fl (1 / 75) = 7686143364045647 / 576460752303423488"
    by (rule fl_evalI[where k = 59 and n = 7686143364045647]) simp_all
  show "fl (7686143364045647 / 576460752303423488 * of_nat 150) = 2"
    by (rule fl_evalI[where k = 51 and n = 4503599627370496]) simp_all
  show "fl (2 * (1 / 2)) = 1"
    by (rule fl_evalI[where k = 52 and n = 4503599627370496]) simp_all
  show "\<lfloor>1 :: rat\<rfloor> = 1"
    by (rule floor_unique) simp_all
qed

lemma exactHeight_hd1080: "exactHeight 1080 1920 150 = 42"
  unfolding exactHeight_def by (rule floor_unique) simp_all

lemma exactHeight_sif: "exactHeight 240 352 88 = 30"
  unfolding exactHeight_def by (rule floor_unique) simp_all

text \<open>
  For a loaded source and a width up to 300 the rounding errors of lines 60 to 62 stay below
  the distance of the exact value to the next integer: the height is the floor of the exact
  value unless that value is itself an integer, and then it is that integer or one less.
\<close>

lemma canvasHeight_near_exact:
  assumes "videoWidth v \<noteq> 0" "cw \<le> 300"
  shows "\<exists>k. canvasHeight v cw = Some k
             \<and> exactHeight (unat (videoHeight v)) (unat (videoWidth v)) cw - 1 \<le> k
             \<and> k \<le> exactHeight (unat (videoHeight v)) (unat (videoWidth v)) cw"
proof -
  have w: "0 < unat (videoWidth v)" using assms(1) by (simp add: unat_gt_0)
  show ?thesis
    using height_near_exact(1,2)[OF w unat32_bound unat32_bound assms(2)]
    by (simp add: canvasHeight_loaded[OF assms(1)])
qed

lemma canvasHeight_exact_unless_integer:
  assumes "videoWidth v \<noteq> 0" "cw \<le> 300"
    and "\<not> 2 * unat (videoWidth v) dvd unat (videoHeight v) * cw"
  shows "canvasHeight v cw
         = Some (exactHeight (unat (videoHeight v)) (unat (videoWidth v)) cw)"
proof -
  have w: "0 < unat (videoWidth v)" using assms(1) by (simp add: unat_gt_0)
  show ?thesis
    using height_near_exact(3)[OF w unat32_bound unat32_bound assms(2,3)]
    by (simp add: canvasHeight_loaded[OF assms(1)])
qed

text \<open>
  Claim C2. For the 1920 by 1080 source and width 150 the height is 42, as the claim says.
  But the height is not always the floor of
  \<open>(sourceHeight / sourceWidth) * width * 0.5\<close>: for the 352 by 240 source at width 88
  that value is exactly 30, and line 62 computes 29, since the quotient \<open>240 / 352\<close> is
  rounded down, its product with 88 is \<open>59.99999999999999\<close>, and the floor of the half
  is 29. The program misses the formula only where the exact value is an integer
  (\<open>canvasHeight_exact_unless_integer\<close>).
\<close>

theorem canvas_height_misses_exact_floor:
  "canvasHeight sif 88 = Some 29 \<and> exactHeight 240 352 88 = 30
   \<and> canvasHeight hd1080 150 = Some 42 \<and> exactHeight 1080 1920 150 = 42"
  by (simp add: canvasHeight_sif exactHeight_sif canvasHeight_hd1080 exactHeight_hd1080)

text \<open>
  Claim C3, as amended. For a source of positive native width and a width in the configured
  range the height is a non-negative integer; it is positive when \<open>videoHeight * width\<close>
  exceeds \<open>2 * videoWidth\<close>, and zero when \<open>videoHeight * width\<close> is below
  \<open>2 * videoWidth\<close>.
\<close>

theorem canvas_height_sign:
  assumes "videoWidth v \<noteq> 0" "50 \<le> cw" "cw \<le> 300"
  shows "\<exists>k. canvasHeight v cw = Some k \<and> 0 \<le> k
             \<and> (2 * unat (videoWidth v) < unat (videoHeight v) * cw \<longrightarrow> 0 < k)
             \<and> (unat (videoHeight v) * cw < 2 * unat (videoWidth v) \<longrightarrow> k = 0)"
proof -
  have w: "0 < unat (videoWidth v)" using assms(1) by (simp add: unat_gt_0)
  show ?thesis
    using height_sign[OF w unat32_bound, of "unat (videoHeight v)" cw]
    by (simp add: canvasHeight_loaded[OF assms(1)])
qed

theorem canvas_height_sign_witness:
  "2 * unat (videoWidth hd1080) < unat (videoHeight hd1080) * 150
   \<and> canvasHeight hd1080 150 = Some 42
   \<and> unat (videoHeight banner) * 50 < 2 * unat (videoWidth banner)
   \<and> canvasHeight banner 50 = Some 0"
proof -
  have w: "videoWidth hd1080 \<noteq> 0" "videoWidth banner \<noteq> 0"
    by (simp_all add: hd1080_def banner_def)
  have s: "2 * unat (videoWidth hd1080) < unat (videoHeight hd1080) * 150"
    "unat (videoHeight banner) * 50 < 2 * unat (videoWidth banner)"
    by (simp_all add: hd1080_def banner_def)
  have "\<exists>k. canvasHeight hd1080 150 = Some k \<and> 0 \<le> k
            \<and> (2 * unat (videoWidth hd1080) < unat (videoHeight hd1080) * 150 \<longrightarrow> 0 < k)
            \<and> (unat (videoHeight hd1080) * 150 < 2 * unat (videoWidth hd1080) \<longrightarrow> k = 0)"
    using w(1) by (rule canvas_height_sign) simp_all
  moreover have "\<exists>k. canvasHeight banner 50 = Some k \<and> 0 \<le> k
            \<and> (2 * unat (videoWidth banner) < unat (videoHeight banner) * 50 \<longrightarrow> 0 < k)
            \<and> (unat (videoHeight banner) * 50 < 2 * unat (videoWidth banner) \<longrightarrow> k = 0)"
    using w(2) by (rule canvas_height_sign) simp_all
  ultimately show ?thesis using s by (simp add: canvasHeight_hd1080 canvasHeight_banner)
qed

text \<open>
  Claim C3 as stated fails: the 1920 by 64 source has a positive width, and at width 50 its
  height is \<open>floor 0.83 = 0\<close>.
\<close>

theorem canvas_height_zero_counterexample:
  "0 < unat (videoWidth banner) \<and> canvasHeight banner 50 = Some 0"
proof -
  have "0 < unat (videoWidth banner)" by (simp add: banner_def)
  then show ?thesis by (simp add: canvasHeight_banner)
qed

section \<open>The assembled text\<close>

lemma fold_append_concat:
  "fold (\<lambda>x s. s @ f x) xs acc = acc @ concat (map f xs)"
  by (induction xs arbitrary: acc) simp_all

lemma appendRow_eq:
  "appendRow idx cw y s =
     s @ concat (map (\<lambda>x. rampChar (idx ((y * cw + x) * 4))) [0..<cw]) @ [newline]"
  by (simp add: appendRow_def fold_append_concat)

lemma fold_appendRow:
  "fold (appendRow idx cw) ys acc =
     acc @ concat (map (\<lambda>y. concat (map (\<lambda>x. rampChar (idx ((y * cw + x) * 4))) [0..<cw])
                              @ [newline]) ys)"
  by (induction ys arbitrary: acc) (simp_all add: appendRow_eq)

lemma assemble_eq:
  "assemble idx cw ch =
     concat (map (\<lambda>y. concat (map (\<lambda>x. rampChar (idx ((y * cw + x) * 4))) [0..<cw])
                        @ [newline]) [0..<ch])"
  by (simp add: assemble_def fold_appendRow)

lemma cell_lt:
  fixes x y cw ch :: nat
  assumes "y < ch" "x < cw"
  shows "y * cw + x < cw * ch"
proof -
  have "y * cw + x < y * cw + cw" using assms by simp
  also have "\<dots> = (Suc y) * cw" by simp
  also have "\<dots> \<le> ch * cw" using assms by (intro mult_le_mono1) simp
  finally show ?thesis by (simp add: mult.commute)
qed

lemma row_glyphs:
  assumes "\<forall>i < cw * ch. 0 \<le> indices ! i \<and> indices ! i < int (length ASCII_RAMP)"
    and "y < ch"
  shows "concat (map (\<lambda>x. rampChar (gridIndex indices ((y * cw + x) * 4))) [0..<cw])
         = rowOf indices cw y"
proof -
  have "rampChar (gridIndex indices ((y * cw + x) * 4))
        = [ASCII_RAMP ! nat (indices ! (y * cw + x))]" if "x < cw" for x
    using assms cell_lt[OF assms(2) that] by (simp add: rampChar_def gridIndex_def)
  then have "map (\<lambda>x. rampChar (gridIndex indices ((y * cw + x) * 4))) [0..<cw]
             = map (\<lambda>x. [ASCII_RAMP ! nat (indices ! (y * cw + x))]) [0..<cw]"
    by (intro map_cong) simp_all
  then have "concat (map (\<lambda>x. rampChar (gridIndex indices ((y * cw + x) * 4))) [0..<cw])
             = concat (map (\<lambda>x. [ASCII_RAMP ! nat (indices ! (y * cw + x))]) [0..<cw])"
    by (rule arg_cong)
  then show ?thesis
    unfolding rowOf_def concat_map_singleton .
qed

text \<open>
  Claim C4. The loops of lines 71 to 85, given a row-major sequence of \<open>cw * ch\<close> ramp
  indices, each within the ramp, produce the rows \<open>0, \<dots>, ch - 1\<close> from top to bottom;
  row \<open>y\<close> is the \<open>cw\<close> glyphs \<open>ASCII_RAMP ! index\<close> of its cells from left to right,
  followed by one newline.
\<close>

theorem grid_assembler_rows:
  assumes "\<forall>i < cw * ch. 0 \<le> indices ! i \<and> indices ! i < int (length ASCII_RAMP)"
  shows "assemble (gridIndex indices) cw ch
         = concat (map (\<lambda>y. rowOf indices cw y @ [newline]) [0..<ch])
         \<and> (\<forall>y < ch. length (rowOf indices cw y) = cw)"
proof -
  have "map (\<lambda>y. concat (map (\<lambda>x. rampChar (gridIndex indices ((y * cw + x) * 4))) [0..<cw])
                   @ [newline]) [0..<ch]
        = map (\<lambda>y. rowOf indices cw y @ [newline]) [0..<ch]"
  proof (rule map_cong)
    fix y assume "y \<in> set [0..<ch]"
    then have "y < ch" by simp
    then show "concat (map (\<lambda>x. rampChar (gridIndex indices ((y * cw + x) * 4))) [0..<cw])
                 @ [newline] = rowOf indices cw y @ [newline]"
      by (simp only: row_glyphs[OF assms])
  qed simp
  then have "assemble (gridIndex indices) cw ch
             = concat (map (\<lambda>y. rowOf indices cw y @ [newline]) [0..<ch])"
    unfolding assemble_eq by (rule arg_cong)
  then show ?thesis
    by (simp add: rowOf_def)
qed

theorem grid_assembler_rows_witness:
  "assemble (gridIndex [0, 64, 2, 1, 0, 64]) 3 2
   = [ASCII_RAMP ! 0, ASCII_RAMP ! 64, ASCII_RAMP ! 2, newline,
      ASCII_RAMP ! 1, ASCII_RAMP ! 0, ASCII_RAMP ! 64, newline]"
proof -
  have h: "\<forall>i < 3 * 2. 0 \<le> [0, 64, 2, 1, 0, 64 :: int] ! i
                       \<and> [0, 64, 2, 1, 0, 64 :: int] ! i < int (length ASCII_RAMP)"
    by (simp add: length_ASCII_RAMP less_Suc_eq nth_Cons' numeral_eq_Suc)
  have u: "[0..<3] = [0, 1, 2]" "[0..<2] = [0, 1]" by (simp_all add: upt_rec)
  show ?thesis
    using grid_assembler_rows[OF h] by (simp add: rowOf_def u)
qed







section \<open>The conversion cycle and the resolution control\<close>

lemma convertToAscii_total: "\<exists>st'. convertToAscii d st = Inr st'"
  by (auto simp: convertToAscii_def split: option.splits sum.splits)

lemma convertToAscii_resolution:
  "convertToAscii d st = Inr st' \<Longrightarrow> resolution st' = resolution st"
  by (auto simp: convertToAscii_def split: option.splits sum.splits if_splits)

lemma convertToAscii_asciiArt:
  "convertToAscii d st = Inr st' \<Longrightarrow>
   asciiArt st' =
     (case (videoRef d, canvasRef d) of
        (Some v, Some c) \<Rightarrow>
          if contextAcquired c then
            (case tryBlock v (resolution st) (canvasHeight v (resolution st)) of
               Inl error \<Rightarrow> asciiArt st | Inr s \<Rightarrow> s)
          else asciiArt st
      | _ \<Rightarrow> asciiArt st)"
  by (auto simp: convertToAscii_def split: option.splits sum.splits if_splits)

text \<open>
  A conversion that succeeds reads every byte inside the image data, and every ramp index
  it computes is inside the ramp: the text is the rows of glyphs of the quantized pixels.
\<close>

lemma readByte_map:
  "i < n \<Longrightarrow> readByte (map f [0..<n]) i = Some (unat (f i))"
  by (simp add: readByte_def)

lemma cellIndex_map:
  assumes "offset + 2 < n"
  shows "cellIndex (map f [0..<n]) offset
         = Some (quantize (unat (f offset)) (unat (f (offset + 1))) (unat (f (offset + 2))))"
  using assms by (simp add: cellIndex_def readByte_map)

lemma unat8_bound: "unat (x :: 8 word) \<le> 255"
  using unsigned_less[of x, where 'a = nat] by simp

lemma rampChar_quantize:
  "rampChar (Some (quantize (unat (r :: 8 word)) (unat (g :: 8 word)) (unat (b :: 8 word))))
   = [ASCII_RAMP ! nat (quantize (unat r) (unat g) (unat b))]"
  using quantize_bounds[OF unat8_bound unat8_bound unat8_bound, of r g b]
  by (simp add: rampChar_def length_ASCII_RAMP)

lemma cell_offset_lt:
  fixes x y cw ch :: nat
  assumes "y < ch" "x < cw"
  shows "(y * cw + x) * 4 + 2 < 4 * cw * ch"
proof -
  have "y * cw + x < cw * ch" using assms by (rule cell_lt)
  then show ?thesis by simp
qed

lemma assemble_image:
  "assemble (cellIndex (map f [0..<4 * cw * ch])) cw ch
   = concat (map (\<lambda>y. map (\<lambda>x. ASCII_RAMP ! nat (quantize (unat (f ((y * cw + x) * 4)))
                                                            (unat (f ((y * cw + x) * 4 + 1)))
                                                            (unat (f ((y * cw + x) * 4 + 2)))))
                         [0..<cw] @ [newline]) [0..<ch])"
proof -
  have cell: "rampChar (cellIndex (map f [0..<4 * cw * ch]) ((y * cw + x) * 4))
              = [ASCII_RAMP ! nat (quantize (unat (f ((y * cw + x) * 4)))
                                           (unat (f ((y * cw + x) * 4 + 1)))
                                           (unat (f ((y * cw + x) * 4 + 2))))]"
    if "y < ch" "x < cw" for x y
    by (simp only: cellIndex_map[OF cell_offset_lt[OF that]] rampChar_quantize)
  have row: "concat (map (\<lambda>x. rampChar (cellIndex (map f [0..<4 * cw * ch]) ((y * cw + x) * 4)))
                      [0..<cw])
             = map (\<lambda>x. ASCII_RAMP ! nat (quantize (unat (f ((y * cw + x) * 4)))
                                                  (unat (f ((y * cw + x) * 4 + 1)))
                                                  (unat (f ((y * cw + x) * 4 + 2))))) [0..<cw]"
    if y: "y < ch" for y
  proof -
    have "map (\<lambda>x. rampChar (cellIndex (map f [0..<4 * cw * ch]) ((y * cw + x) * 4))) [0..<cw]
          = map (\<lambda>x. [ASCII_RAMP ! nat (quantize (unat (f ((y * cw + x) * 4)))
                                                 (unat (f ((y * cw + x) * 4 + 1)))
                                                 (unat (f ((y * cw + x) * 4 + 2))))]) [0..<cw]"
    proof (rule map_cong)
      fix x assume "x \<in> set [0..<cw]"
      then have "x < cw" by simp
      then show "rampChar (cellIndex (map f [0..<4 * cw * ch]) ((y * cw + x) * 4))
                 = [ASCII_RAMP ! nat (quantize (unat (f ((y * cw + x) * 4)))
                                              (unat (f ((y * cw + x) * 4 + 1)))
                                              (unat (f ((y * cw + x) * 4 + 2))))]"
        using y by (rule cell[rotated])
    qed simp
    then have "concat (map (\<lambda>x. rampChar (cellIndex (map f [0..<4 * cw * ch]) ((y * cw + x) * 4)))
                        [0..<cw])
               = concat (map (\<lambda>x. [ASCII_RAMP ! nat (quantize (unat (f ((y * cw + x) * 4)))
                                                 (unat (f ((y * cw + x) * 4 + 1)))
                                                 (unat (f ((y * cw + x) * 4 + 2))))]) [0..<cw])"
      by (rule arg_cong)
    then show ?thesis unfolding concat_map_singleton .
  qed
  have "map (\<lambda>y. concat (map (\<lambda>x. rampChar (cellIndex (map f [0..<4 * cw * ch])
                                                ((y * cw + x) * 4))) [0..<cw]) @ [newline])
            [0..<ch]
        = map (\<lambda>y. map (\<lambda>x. ASCII_RAMP ! nat (quantize (unat (f ((y * cw + x) * 4)))
                                                            (unat (f ((y * cw + x) * 4 + 1)))
                                                            (unat (f ((y * cw + x) * 4 + 2)))))
                         [0..<cw] @ [newline]) [0..<ch]"
  proof (rule map_cong)
    fix y assume "y \<in> set [0..<ch]"
    then have "y < ch" by simp
    then show "concat (map (\<lambda>x. rampChar (cellIndex (map f [0..<4 * cw * ch])
                                           ((y * cw + x) * 4))) [0..<cw]) @ [newline]
               = map (\<lambda>x. ASCII_RAMP ! nat (quantize (unat (f ((y * cw + x) * 4)))
                                                    (unat (f ((y * cw + x) * 4 + 1)))
                                                    (unat (f ((y * cw + x) * 4 + 2)))))
                     [0..<cw] @ [newline]"
      by (simp only: row)
  qed simp
  then show ?thesis
    unfolding assemble_eq by (rule arg_cong)
qed

lemma tryBlock_rows:
  assumes "0 < cw" "int cw < 2 ^ 31" "0 < h" "h < 2 ^ 31"
  shows "tryBlock v cw (Some h)
         = Inr (concat (map (\<lambda>y. map (\<lambda>x. ASCII_RAMP ! nat (quantize
                                   (unat (drawn v cw (nat h) ((y * cw + x) * 4)))
                                   (unat (drawn v cw (nat h) ((y * cw + x) * 4 + 1)))
                                   (unat (drawn v cw (nat h) ((y * cw + x) * 4 + 2)))))
                                [0..<cw] @ [newline]) [0..<nat h]))"
proof -
  have "getImageData (drawn v cw (nat h)) cw (Some h)
        = Inr (map (drawn v cw (nat h)) [0..<4 * cw * nat h])"
    using assms by (simp add: getImageData_def)
  then show ?thesis
    by (simp add: tryBlock_def assemble_image)
qed

lemma tryBlock_solid:
  assumes "0 < cw" "int cw < 2 ^ 31" "0 < h" "h < 2 ^ 31" "drawn v = solid c"
  shows "tryBlock v cw (Some h)
         = Inr (concat (replicate (nat h)
                  (replicate cw (ASCII_RAMP ! nat (quantize (unat c) (unat c) (unat c)))
                   @ [newline])))"
  by (simp add: tryBlock_rows[OF assms(1-4)] assms(5) solid_def map_replicate_const)

lemma convert_strip:
  "convertToAscii (page strip) initialState
   = Inr (initialState\<lparr>asciiArt := replicate 150 (ASCII_RAMP ! 63) @ [newline]\<rparr>)"
proof -
  have d: "drawn strip = solid 255" by (simp add: strip_def)
  have "tryBlock strip 150 (Some 1)
        = Inr (concat (replicate (nat 1)
                 (replicate 150 (ASCII_RAMP ! nat (quantize (unat (255 :: 8 word))
                                                           (unat (255 :: 8 word))
                                                           (unat (255 :: 8 word))))
                  @ [newline])))"
    by (rule tryBlock_solid[OF _ _ _ _ d]) simp_all
  then have "tryBlock strip 150 (Some 1) = Inr (replicate 150 (ASCII_RAMP ! 63) @ [newline])"
    by (simp add: quantize_white)
  then show ?thesis
    by (simp add: convertToAscii_def page_def initialState_def DEFAULT_RESOLUTION_def
        canvasHeight_strip)
qed

text \<open>
  Claim C7. With the same video element, canvas and resolution, a second call of
  \<open>convertToAscii\<close> leaves the same frame text as the first: the text depends on the
  source and the resolution only, never on the text already there.
\<close>

theorem conversion_idempotent:
  "asciiArt (handle (handle st (Convert d)) (Convert d)) = asciiArt (handle st (Convert d))"
proof -
  obtain st1 where s1: "convertToAscii d st = Inr st1"
    using convertToAscii_total by blast
  obtain st2 where s2: "convertToAscii d st1 = Inr st2"
    using convertToAscii_total by blast
  have r: "resolution st1 = resolution st"
    using s1 by (rule convertToAscii_resolution)
  have "asciiArt st2 = asciiArt st1"
    using convertToAscii_asciiArt[OF s1] convertToAscii_asciiArt[OF s2] r
    by (auto split: option.splits sum.splits if_splits)
  then show ?thesis
    by (simp add: s1 s2)
qed

theorem conversion_idempotent_witness:
  "asciiArt (handle (handle initialState (Convert (page strip))) (Convert (page strip)))
   = replicate 150 (ASCII_RAMP ! 63) @ [newline]"
  using conversion_idempotent[of initialState "page strip"]
  by (simp add: convert_strip)

lemma canvasHeight_no_width:
  "videoWidth v = 0 \<Longrightarrow> canvasHeight v cw = None"
  by (simp add: canvasHeight_def aspectRatio_def)

lemma canvasHeight_no_height:
  "videoWidth v \<noteq> 0 \<Longrightarrow> videoHeight v = 0 \<Longrightarrow> canvasHeight v cw = Some 0"
  by (simp add: canvasHeight_def aspectRatio_def fl_zero)

lemma tryBlock_zero_area:
  assumes "videoWidth v = 0 \<or> videoHeight v = 0"
  shows "\<exists>error. tryBlock v cw (canvasHeight v cw) = Inl error"
proof (cases "videoWidth v = 0")
  case True
  then show ?thesis
    by (simp add: canvasHeight_no_width tryBlock_def getImageData_def)
next
  case False
  with assms have "canvasHeight v cw = Some 0"
    by (simp add: canvasHeight_no_height)
  then show ?thesis
    by (simp add: tryBlock_def getImageData_def)
qed

text \<open>
  Claim C8. When a ref is missing, the 2d context is not acquired, or the video has a zero
  native width or height, \<open>convertToAscii\<close> returns normally, the frame text is the
  one from before the call, and \<open>animate\<close> still requests the next frame. The program
  has no error value of its own: the two early returns are silent, and the exception of
  \<^verbatim>\<open>getImageData\<close> on the empty rectangle is caught and logged at lines 87 to 89.
\<close>

theorem source_unavailable_keeps_frame_text:
  assumes "videoRef d = None \<or> canvasRef d = None
           \<or> (\<exists>c. canvasRef d = Some c \<and> \<not> contextAcquired c)
           \<or> (\<exists>v. videoRef d = Some v \<and> (videoWidth v = 0 \<or> videoHeight v = 0))"
  shows "\<exists>st'. convertToAscii d st = Inr st' \<and> asciiArt st' = asciiArt st
               \<and> animate d st = Inr (st'\<lparr>frameRequested := True\<rparr>)"
proof -
  obtain st' where s: "convertToAscii d st = Inr st'"
    using convertToAscii_total by blast
  have "asciiArt st' = asciiArt st"
  proof (cases "\<exists>v. videoRef d = Some v \<and> (videoWidth v = 0 \<or> videoHeight v = 0)")
    case True
    then obtain v where v: "videoRef d = Some v" "videoWidth v = 0 \<or> videoHeight v = 0"
      by blast
    obtain error where "tryBlock v (resolution st) (canvasHeight v (resolution st)) = Inl error"
      using tryBlock_zero_area[OF v(2)] by blast
    then show ?thesis
      using convertToAscii_asciiArt[OF s] v(1) by (simp split: option.splits)
  next
    case False
    with assms show ?thesis
      using convertToAscii_asciiArt[OF s] by (auto split: option.splits)
  qed
  then show ?thesis
    using s by (simp add: animate_def)
qed

theorem source_unavailable_keeps_frame_text_witness:
  "videoRef (page unloaded) = Some unloaded \<and> videoWidth unloaded = 0
   \<and> (\<exists>st'. convertToAscii (page unloaded) (initialState\<lparr>asciiArt := ''@@''\<rparr>) = Inr st'
             \<and> asciiArt st' = ''@@''
             \<and> animate (page unloaded) (initialState\<lparr>asciiArt := ''@@''\<rparr>)
                 = Inr (st'\<lparr>frameRequested := True\<rparr>))"
proof -
  have v: "videoRef (page unloaded) = Some unloaded" "videoWidth unloaded = 0"
    by (simp_all add: page_def unloaded_def)
  then have "videoRef (page unloaded) = None \<or> canvasRef (page unloaded) = None
             \<or> (\<exists>c. canvasRef (page unloaded) = Some c \<and> \<not> contextAcquired c)
             \<or> (\<exists>v. videoRef (page unloaded) = Some v \<and> (videoWidth v = 0 \<or> videoHeight v = 0))"
    by simp
  then have "\<exists>st'. convertToAscii (page unloaded) (initialState\<lparr>asciiArt := ''@@''\<rparr>) = Inr st'
               \<and> asciiArt st' = asciiArt (initialState\<lparr>asciiArt := ''@@''\<rparr>)
               \<and> animate (page unloaded) (initialState\<lparr>asciiArt := ''@@''\<rparr>)
                   = Inr (st'\<lparr>frameRequested := True\<rparr>)"
    by (rule source_unavailable_keeps_frame_text)
  then show ?thesis using v by simp
qed

lemma rangeValue_bounds: "50 \<le> rangeValue raw \<and> rangeValue raw \<le> 300"
proof -
  have "50 \<le> nat \<lfloor>raw + 1 / 2\<rfloor> \<and> nat \<lfloor>raw + 1 / 2\<rfloor> \<le> 300" if "50 \<le> raw" "raw \<le> 300"
  proof -
    have "(50::int) \<le> \<lfloor>raw + 1 / 2\<rfloor>" using that by (simp add: le_floor_iff)
    moreover have "\<lfloor>raw + 1 / 2\<rfloor> \<le> (300::int)" using that by (simp add: floor_le_iff)
    ultimately show ?thesis by (simp add: le_nat_iff nat_le_iff)
  qed
  then show ?thesis
    by (simp add: rangeValue_def)
qed

lemma handle_resolution:
  "50 \<le> resolution st \<and> resolution st \<le> 300 \<Longrightarrow>
   50 \<le> resolution (handle st e) \<and> resolution (handle st e) \<le> 300"
proof (cases e)
  case (Change raw)
  then show ?thesis
    using rangeValue_bounds[of raw] by (simp add: onChange_def)
next
  case (Convert d)
  assume a: "50 \<le> resolution st \<and> resolution st \<le> 300"
  obtain st' where "convertToAscii d st = Inr st'"
    using convertToAscii_total by blast
  then show ?thesis
    using a Convert convertToAscii_resolution[of d st st'] by simp
next
  case (Animate d)
  assume a: "50 \<le> resolution st \<and> resolution st \<le> 300"
  obtain st' where "convertToAscii d st = Inr st'"
    using convertToAscii_total by blast
  then show ?thesis
    using a Animate convertToAscii_resolution[of d st st'] by (simp add: animate_def)
qed

lemma foldl_handle_resolution:
  "50 \<le> resolution st \<and> resolution st \<le> 300 \<Longrightarrow>
   50 \<le> resolution (foldl handle st es) \<and> resolution (foldl handle st es) \<le> 300"
proof (induction es arbitrary: st)
  case Nil
  then show ?case by simp
next
  case (Cons e es)
  show ?case
    using Cons.IH[OF handle_resolution[OF Cons.prems]] by simp
qed

text \<open>
  Claim C9. A value below 50 given to the resolution control becomes 50, a value above 300
  becomes 300, and in every state reached from the initial one the resolution, which line 61
  takes as the canvas width, lies between 50 and 300. The clamp is the one of the range
  control with \<^verbatim>\<open>min="50"\<close> and \<^verbatim>\<open>max="300"\<close>; the handler of line 198 stores the
  value of the control as it is.
\<close>

theorem resolution_clamped:
  "(raw < 50 \<longrightarrow> resolution (onChange raw st) = 50)
   \<and> (300 < raw \<longrightarrow> resolution (onChange raw st) = 300)
   \<and> 50 \<le> resolution (run events) \<and> resolution (run events) \<le> 300"
proof -
  have "50 \<le> resolution initialState \<and> resolution initialState \<le> 300"
    by (simp add: initialState_def DEFAULT_RESOLUTION_def)
  then have "50 \<le> resolution (run events) \<and> resolution (run events) \<le> 300"
    unfolding run_def by (rule foldl_handle_resolution)
  then show ?thesis
    by (simp add: onChange_def rangeValue_def)
qed

theorem resolution_clamped_witness:
  "(7 < (50::rat) \<and> resolution (onChange 7 initialState) = 50)
   \<and> ((300::rat) < 1000 \<and> resolution (onChange 1000 initialState) = 300)
   \<and> resolution (run [Change 7]) = 50 \<and> resolution (run [Change 7, Change 1000]) = 300"
  using resolution_clamped[of 7 initialState "[]"] resolution_clamped[of 1000 initialState "[]"]
  by (simp add: run_def onChange_def rangeValue_def)

end
